theory Spec2Isabelle
  imports Main "HOL-Library.Word" "HOL-Library.AList" "HOL-Library.List_Lexorder"
begin

unbundle bit_operations_syntax

section \<open>Data model\<close>

text \<open>
  A Python \<open>str\<close> is a sequence of Unicode code points, read by \<open>ord\<close>; it is
  modelled as the list of these code points.  A \<open>bytes\<close> value is the list of its
  byte values.  Python integers are unbounded and are modelled by \<open>int\<close>.  The
  library calls are those of Python 3.
\<close>

type_synonym pystr = "nat list"
type_synonym pybytes = "nat list"

text \<open>An ASCII literal of the source, as a Python string.\<close>

definition ustr :: "string \<Rightarrow> pystr" where
  "ustr s = map of_char s"

text \<open>
  The exceptions that leave the methods of \<open>credstore.py\<close> modelled here:
  \<open>HostNotFoundException\<close> is raised by \<open>get_userpwd\<close>; the other three are raised by
  the standard library calls of \<open>_deobfuscate\<close> (\<open>base64.b64decode\<close> raises
  \<open>ValueError\<close> for a non-ASCII string and \<open>binascii.Error\<close> for an incomplete
  quantum, \<open>bytes.decode\<close> raises \<open>UnicodeDecodeError\<close>).
\<close>

datatype error = HostNotFoundException | ValueError | BinasciiError | UnicodeDecodeError

text \<open>
  \<open>PasswordEntry\<close>: the three private fields set by \<open>__init__\<close>.  The store only
  constructs entries whose three fields are present (\<open>_get_pwd_entry_list\<close>).
\<close>

record password_entry =
  host :: pystr
  username :: pystr
  password :: pystr

definition get_user :: "password_entry \<Rightarrow> pystr" where
  "get_user e = username e"

definition get_host :: "password_entry \<Rightarrow> pystr" where
  "get_host e = host e"

section \<open>The hash function\<close>

text \<open>
  One iteration of the loop of \<open>_compute_hash\<close>:
  \<^verbatim>\<open>
    hash_value = hash_value * 31 + ord(my_char)
    if hash_value & negative:
        hash_value |= ~boundary
    else:
        hash_value &= boundary
  \<close>
  with \<open>boundary = 0x7FFFFFFF\<close> and \<open>negative = 0x80000000\<close>, on unbounded integers.
\<close>

definition boundary :: int where
  "boundary = 0x7FFFFFFF"

definition negative :: int where
  "negative = 0x80000000"

definition hash_step :: "int \<Rightarrow> nat \<Rightarrow> int" where
  "hash_step hash_value my_char =
     (let hash_value = hash_value * 31 + int my_char
      in if hash_value AND negative \<noteq> 0
         then hash_value OR (NOT boundary)
         else hash_value AND boundary)"

fun compute_hash_loop :: "int \<Rightarrow> pystr \<Rightarrow> int" where
  "compute_hash_loop hash_value [] = hash_value"
| "compute_hash_loop hash_value (my_char # text) =
     compute_hash_loop (hash_step hash_value my_char) text"

definition compute_hash :: "pystr \<Rightarrow> int" where
  "compute_hash text = compute_hash_loop 0 text"

section \<open>The standard library calls of \<open>_deobfuscate\<close>\<close>

text \<open>
  \<open>base64.b64decode(s)\<close> with its default arguments (\<open>altchars=None\<close>,
  \<open>validate=False\<close>) on a \<open>str\<close>: the string is first encoded to ASCII (a
  \<open>ValueError\<close> when it has a character above 127) and then handed to
  \<open>binascii.a2b_base64\<close> in its non-strict mode.  That decoder reads one character
  at a time, keeping the position in the current quantum (\<open>quad_pos\<close>), the bits left
  over from the previous character (\<open>leftchar\<close>) and the number of padding characters
  seen in a row (\<open>pads\<close>).  A character outside the alphabet is skipped; a padding
  character that completes a quantum of at least two data characters ends the decoding;
  input that ends inside a quantum is an error (\<open>binascii.Error\<close>).
  The alphabet table maps \<open>A-Z\<close> to 0..25, \<open>a-z\<close> to 26..51, \<open>0-9\<close> to 52..61,
  \<open>+\<close> to 62 and \<open>/\<close> to 63; the padding character \<open>=\<close> is code point 61.
\<close>

definition table_a2b_base64 :: "nat \<Rightarrow> nat option" where
  "table_a2b_base64 c =
     (if 65 \<le> c \<and> c \<le> 90 then Some (c - 65)
      else if 97 \<le> c \<and> c \<le> 122 then Some (c - 71)
      else if 48 \<le> c \<and> c \<le> 57 then Some (c + 4)
      else if c = 43 then Some 62
      else if c = 47 then Some 63
      else None)"

text \<open>Writing one more byte in front of the rest of the output, unless the rest fails.\<close>

definition emit :: "nat \<Rightarrow> error + pybytes \<Rightarrow> error + pybytes" where
  "emit b r = (case r of Inl e \<Rightarrow> Inl e | Inr bs \<Rightarrow> Inr (b # bs))"

fun a2b_base64 :: "nat \<Rightarrow> nat \<Rightarrow> nat \<Rightarrow> pystr \<Rightarrow> error + pybytes" where
  "a2b_base64 quad_pos leftchar pads [] =
     (if quad_pos \<noteq> 0 then Inl BinasciiError else Inr [])"
| "a2b_base64 quad_pos leftchar pads (this_ch # rest) =
     (if this_ch = 61 then
        (if 2 \<le> quad_pos \<and> 4 \<le> quad_pos + (pads + 1) then Inr []
         else a2b_base64 quad_pos leftchar (if 2 \<le> quad_pos then pads + 1 else pads) rest)
      else
        (case table_a2b_base64 this_ch of
           None \<Rightarrow> a2b_base64 quad_pos leftchar pads rest
         | Some v \<Rightarrow>
             (if quad_pos = 0 then a2b_base64 1 v 0 rest
              else if quad_pos = 1 then
                emit (leftchar * 4 + v div 16) (a2b_base64 2 (v mod 16) 0 rest)
              else if quad_pos = 2 then
                emit (leftchar * 16 + v div 4) (a2b_base64 3 (v mod 4) 0 rest)
              else
                emit (leftchar * 64 + v) (a2b_base64 0 0 0 rest))))"

definition b64decode :: "pystr \<Rightarrow> error + pybytes" where
  "b64decode s =
     (if list_ex (\<lambda>c. 128 \<le> c) s then Inl ValueError else a2b_base64 0 0 0 s)"

text \<open>
  \<open>bytes.decode('UTF-8')\<close> with the default strict error handling: one-byte
  sequences below \<open>0x80\<close>; two-byte sequences with lead byte \<open>0xC2..0xDF\<close>;
  three-byte sequences with lead byte \<open>0xE0..0xEF\<close>, neither overlong nor a
  surrogate; four-byte sequences with lead byte \<open>0xF0..0xF4\<close>, neither overlong nor
  above \<open>U+10FFFF\<close>.  Every other byte sequence raises \<open>UnicodeDecodeError\<close>.
\<close>

definition is_cont :: "nat \<Rightarrow> bool" where
  "is_cont b = (128 \<le> b \<and> b < 192)"

definition put :: "nat \<Rightarrow> error + pystr \<Rightarrow> error + pystr" where
  "put c r = (case r of Inl e \<Rightarrow> Inl e | Inr cs \<Rightarrow> Inr (c # cs))"

fun decode_utf8 :: "pybytes \<Rightarrow> error + pystr" where
  "decode_utf8 [] = Inr []"
| "decode_utf8 (b0 # bs) =
     (if b0 < 128 then put b0 (decode_utf8 bs)
      else if 194 \<le> b0 \<and> b0 < 224 then
        (case bs of
           b1 # r \<Rightarrow>
             if is_cont b1
             then put ((b0 - 192) * 64 + (b1 - 128)) (decode_utf8 r)
             else Inl UnicodeDecodeError
         | _ \<Rightarrow> Inl UnicodeDecodeError)
      else if 224 \<le> b0 \<and> b0 < 240 then
        (case bs of
           b1 # b2 # r \<Rightarrow>
             let cp = (b0 - 224) * 4096 + (b1 - 128) * 64 + (b2 - 128)
             in if is_cont b1 \<and> is_cont b2 \<and> 2048 \<le> cp \<and> \<not> (55296 \<le> cp \<and> cp < 57344)
                then put cp (decode_utf8 r)
                else Inl UnicodeDecodeError
         | _ \<Rightarrow> Inl UnicodeDecodeError)
      else if 240 \<le> b0 \<and> b0 < 245 then
        (case bs of
           b1 # b2 # b3 # r \<Rightarrow>
             let cp = (b0 - 240) * 262144 + (b1 - 128) * 4096 + (b2 - 128) * 64 + (b3 - 128)
             in if is_cont b1 \<and> is_cont b2 \<and> is_cont b3 \<and> 65536 \<le> cp \<and> cp < 1114112
                then put cp (decode_utf8 r)
                else Inl UnicodeDecodeError
         | _ \<Rightarrow> Inl UnicodeDecodeError)
      else Inl UnicodeDecodeError)"

section \<open>Deobfuscation\<close>

text \<open>
  The second loop of \<open>_deobfuscate\<close>:
  \<^verbatim>\<open>
    decrypted_pwd = ''
    for ci in password_final:
        if ci == 0:
            break
        decrypted_pwd += chr(ci)
  \<close>
\<close>

fun decrypted_loop :: "nat list \<Rightarrow> pystr" where
  "decrypted_loop [] = []"
| "decrypted_loop (ci # rest) = (if ci = 0 then [] else ci # decrypted_loop rest)"

text \<open>
  \<open>hash_value = self._compute_hash(self.__host + self.__username) % hashmod\<close> followed by
  \<open>hash_value & 0xFF\<close>, the code point of the character repeated in \<open>crypt\<close>.
  Python's \<open>%\<close> with a positive divisor is the floor modulo, as \<open>mod\<close> on \<open>int\<close>.
\<close>

definition hashmod :: int where
  "hashmod = 256"

definition key_byte :: "pystr \<Rightarrow> pystr \<Rightarrow> nat" where
  "key_byte h u = nat ((compute_hash (h @ u) mod hashmod) AND 0xFF)"

text \<open>
  The body of \<open>_deobfuscate\<close> after the two library calls: \<open>crypt\<close> is the key
  character repeated \<open>len(password)\<close> times, and \<open>password_final\<close> collects
  \<open>ord(password[n]) ^ ord(crypt[n])\<close> for \<open>n\<close> in \<open>range(0, len(password))\<close>.
\<close>

definition password_final :: "pystr \<Rightarrow> pystr \<Rightarrow> pystr \<Rightarrow> nat list" where
  "password_final h u pw =
     (let crypt = replicate (length pw) (key_byte h u)
      in map (\<lambda>n. (pw ! n) XOR (crypt ! n)) [0..<length pw])"

definition deobfuscate :: "password_entry \<Rightarrow> error + pystr" where
  "deobfuscate self =
     (case b64decode (password self) of
        Inl e \<Rightarrow> Inl e
      | Inr bs \<Rightarrow>
          (case decode_utf8 bs of
             Inl e \<Rightarrow> Inl e
           | Inr pw \<Rightarrow> Inr (decrypted_loop (password_final (host self) (username self) pw))))"

definition get_pwd :: "password_entry \<Rightarrow> error + pystr" where
  "get_pwd self = deobfuscate self"

section \<open>Equality of entries\<close>






section \<open>The credential store\<close>

text \<open>
  The parsed XML document, as \<open>xml.etree.ElementTree\<close> presents it: an element has a
  tag, an optional text and its child elements in document order.
\<close>

datatype element = Element (tag: pystr) (etext: "pystr option") (children: "element list")

text \<open>
  The inner loop of \<open>_get_pwd_entry_list\<close> over the children of one
  \<open>passwordEntry\<close> element; a later child with the same tag overwrites the field.
\<close>

fun child_fields ::
  "pystr option \<Rightarrow> pystr option \<Rightarrow> pystr option \<Rightarrow> element list
   \<Rightarrow> pystr option \<times> pystr option \<times> pystr option" where
  "child_fields h u p [] = (h, u, p)"
| "child_fields h u p (child # rest) =
     (let h = (if tag child = ustr ''host'' then etext child else h);
          u = (if tag child = ustr ''username'' then etext child else u);
          p = (if tag child = ustr ''password'' then etext child else p)
      in child_fields h u p rest)"

fun pwdentries_loop :: "element list \<Rightarrow> password_entry list" where
  "pwdentries_loop [] = []"
| "pwdentries_loop (entry # rest) =
     (case child_fields None None None (children entry) of
        (Some h, Some u, Some p) \<Rightarrow>
          \<lparr>host = h, username = u, password = p\<rparr> # pwdentries_loop rest
      | _ \<Rightarrow> pwdentries_loop rest)"

definition get_pwd_entry_list :: "element \<Rightarrow> password_entry list" where
  "get_pwd_entry_list root =
     (let tmp_list = filter (\<lambda>entry. tag entry = ustr ''passwordEntry'') (children root)
      in pwdentries_loop tmp_list)"

text \<open>
  A Python dictionary keeps its keys in insertion order and assigning to a key that is
  present replaces the value in place: an association list with \<open>AList.update\<close>.
  The loop of \<open>__populate_data\<close> assigns \<open>new_hostdata[entry.get_host()] = entry\<close>
  for each entry in turn.
\<close>

type_synonym hostdict = "(pystr \<times> password_entry) list"

fun populate_loop :: "hostdict \<Rightarrow> password_entry list \<Rightarrow> hostdict" where
  "populate_loop new_hostdata [] = new_hostdata"
| "populate_loop new_hostdata (entry # pwd_list) =
     populate_loop (AList.update (get_host entry) entry new_hostdata) pwd_list"

definition populate_data :: "element \<Rightarrow> hostdict" where
  "populate_data root = populate_loop [] (get_pwd_entry_list root)"

text \<open>
  The store after \<open>__init__\<close> has found and parsed the credentials file: the document
  root and the dictionary built from it.
\<close>

record vicredstore =
  root :: element
  hostdata :: hostdict

definition init_store :: "element \<Rightarrow> vicredstore" where
  "init_store r = \<lparr>root = r, hostdata = populate_data r\<rparr>"

text \<open>
  \<open>get_userpwd\<close> returns its result together with the store it leaves behind; a
  missing key (\<open>KeyError\<close>) is turned into \<open>HostNotFoundException\<close>, and an
  exception of \<open>get_pwd\<close> propagates.
\<close>

definition get_userpwd ::
  "vicredstore \<Rightarrow> pystr \<Rightarrow> (error + pystr \<times> pystr) \<times> vicredstore" where
  "get_userpwd self hostname =
     (case map_of (hostdata self) hostname of
        None \<Rightarrow> (Inl HostNotFoundException, self)
      | Some entry \<Rightarrow>
          (case get_pwd entry of
             Inl e \<Rightarrow> (Inl e, self)
           | Inr pwd \<Rightarrow> (Inr (get_user entry, pwd), self)))"

text \<open>
  \<open>list_entries\<close> prints \<open>sorted(self.__hostdata.keys())\<close>, one host per line; the
  model returns the printed lines.  Python compares strings by code point,
  lexicographically, which is the order of \<open>nat list\<close>.
\<close>

definition list_entries :: "vicredstore \<Rightarrow> pystr list" where
  "list_entries self = sort (map fst (hostdata self))"

section \<open>The credentials file of the test suite\<close>

text \<open>
  The document that \<open>_create_credentialsfile\<close> of \<open>test_credstore.py\<close> writes: one
  \<open>passwordEntry\<close> for host \<open>mytesthost\<close> and user \<open>testuser\<close> after a
  \<open>version\<close> element.  The white space between the elements, which the store never
  reads, is left out.
\<close>

definition test_vector_password :: pystr where
  "test_vector_password = ustr
     (''NyYwNzMiMDA0LDEnQwY6EwoWFHsINgUwdCV1cg1wDyUtJBssG3cicRE7MQcVKxp1''
      @ ''FhsOHBMrdSASNwoJCXM2cjUaOy0JJXsIFXN2EgAsKzUmeiU6EzIvcisrBAEIdg87''
      @ ''IQs7JRI3DRwQMRsAMwIGJw8CAXQuDjslJRERKnEmB0M='')"

definition test_document :: element where
  "test_document =
     Element (ustr ''viCredentials'') None
       [Element (ustr ''version'') (Some (ustr ''1.0'')) [],
        Element (ustr ''passwordEntry'') None
          [Element (ustr ''host'') (Some (ustr ''mytesthost'')) [],
           Element (ustr ''username'') (Some (ustr ''testuser'')) [],
           Element (ustr ''password'') (Some test_vector_password) []]]"

section \<open>The encoder described by the specification\<close>

text \<open>
  Modelled from the spec: the repository only reads credential files and has no
  encoder.  The round-trip property of the specification speaks of an obfuscated value
  "produced by applying the inverse of step 4 (XOR with the same constant key byte) and
  the same base64 encoding"; these definitions follow those words: XOR each plaintext
  character with the key byte, encode the result as UTF-8 and the bytes as base64.
  Encoding as UTF-8 fails on a surrogate and on a value above \<open>U+10FFFF\<close>.
\<close>

definition spec_encode_utf8_char :: "nat \<Rightarrow> pybytes option" where
  "spec_encode_utf8_char c =
     (if c < 128 then Some [c]
      else if c < 2048 then Some [192 + c div 64, 128 + c mod 64]
      else if c < 65536 then
        (if 55296 \<le> c \<and> c < 57344 then None
         else Some [224 + c div 4096, 128 + (c div 64) mod 64, 128 + c mod 64])
      else if c < 1114112 then
        Some [240 + c div 262144, 128 + (c div 4096) mod 64,
              128 + (c div 64) mod 64, 128 + c mod 64]
      else None)"

fun spec_encode_utf8 :: "pystr \<Rightarrow> pybytes option" where
  "spec_encode_utf8 [] = Some []"
| "spec_encode_utf8 (c # cs) =
     (case spec_encode_utf8_char c of
        None \<Rightarrow> None
      | Some bs \<Rightarrow> (case spec_encode_utf8 cs of None \<Rightarrow> None | Some r \<Rightarrow> Some (bs @ r)))"

definition spec_b64_char :: "nat \<Rightarrow> nat" where
  "spec_b64_char v =
     (if v < 26 then 65 + v
      else if v < 52 then 71 + v
      else if v < 62 then v - 4
      else if v = 62 then 43
      else 47)"

fun spec_b64encode :: "pybytes \<Rightarrow> pystr" where
  "spec_b64encode [] = []"
| "spec_b64encode [a] =
     [spec_b64_char (a div 4), spec_b64_char ((a mod 4) * 16), 61, 61]"
| "spec_b64encode [a, b] =
     [spec_b64_char (a div 4), spec_b64_char ((a mod 4) * 16 + b div 16),
      spec_b64_char ((b mod 16) * 4), 61]"
| "spec_b64encode (a # b # c # r) =
     [spec_b64_char (a div 4), spec_b64_char ((a mod 4) * 16 + b div 16),
      spec_b64_char ((b mod 16) * 4 + c div 64), spec_b64_char (c mod 64)]
     @ spec_b64encode r"

definition spec_obfuscate :: "pystr \<Rightarrow> pystr \<Rightarrow> pystr \<Rightarrow> pystr option" where
  "spec_obfuscate h u plaintext =
     (case spec_encode_utf8 (map (\<lambda>c. c XOR key_byte h u) plaintext) of
        None \<Rightarrow> None
      | Some bs \<Rightarrow> Some (spec_b64encode bs))"

text \<open>
  The strict reading of "valid base64" (RFC 4648): a whole number of four-character
  quanta over the alphabet, of which only the last may end in one or two padding
  characters.
\<close>

fun spec_valid_base64 :: "pystr \<Rightarrow> bool" where
  "spec_valid_base64 [] = True"
| "spec_valid_base64 [a, b, c, d] =
     (table_a2b_base64 a \<noteq> None \<and> table_a2b_base64 b \<noteq> None
      \<and> (if c = 61 then d = 61 else table_a2b_base64 c \<noteq> None
            \<and> (d = 61 \<or> table_a2b_base64 d \<noteq> None)))"
| "spec_valid_base64 (a # b # c # d # r) =
     (table_a2b_base64 a \<noteq> None \<and> table_a2b_base64 b \<noteq> None
      \<and> table_a2b_base64 c \<noteq> None \<and> table_a2b_base64 d \<noteq> None
      \<and> spec_valid_base64 r)"
| "spec_valid_base64 _ = False"

section \<open>Properties of the hash function\<close>

lemma negative_bit: "(v AND negative \<noteq> 0) = bit v 31" for v :: int
proof -
  have "v AND negative = v AND push_bit 31 1"
    by (simp add: negative_def)
  then show ?thesis
    by (simp add: bit_iff_and_push_bit_not_eq_0)
qed

lemma boundary_mask: "boundary = mask 31"
  by (simp add: boundary_def mask_eq_exp_minus_1)

lemma hash_step_signed:
  "hash_step h c = signed_take_bit 31 (h * 31 + int c)"
proof (cases "bit (h * 31 + int c) 31")
  case True
  have "(h * 31 + int c) OR NOT (mask 31) = take_bit 31 (h * 31 + int c) OR NOT (mask 31)"
    by (rule bit_eqI) (auto simp add: bit_simps)
  with True show ?thesis
    by (simp add: hash_step_def Let_def negative_bit boundary_mask
        signed_take_bit_eq_if_negative)
next
  case False
  then show ?thesis
    by (simp add: hash_step_def Let_def negative_bit boundary_mask
        signed_take_bit_eq_if_positive take_bit_eq_mask)
qed

lemma compute_hash_loop_snoc:
  "compute_hash_loop h (s @ [c]) = hash_step (compute_hash_loop h s) c"
  by (induction s arbitrary: h) simp_all

lemma compute_hash_loop_range:
  "- (2 ^ 31) \<le> h \<Longrightarrow> h < 2 ^ 31 \<Longrightarrow>
   - (2 ^ 31) \<le> compute_hash_loop h s \<and> compute_hash_loop h s < 2 ^ 31"
proof (induction s arbitrary: h)
  case Nil
  then show ?case by simp
next
  case (Cons c s)
  have "- (2 ^ 31) \<le> hash_step h c" and "hash_step h c < 2 ^ 31"
    unfolding hash_step_signed
    by (rule signed_take_bit_int_greater_eq_minus_exp, rule signed_take_bit_int_less_exp)
  then show ?case
    using Cons.IH [of "hash_step h c"] by simp
qed

text \<open>
  C4.  For every string \<open>s\<close>, \<open>compute_hash s\<close> lies in the signed 32-bit range
  \<open>[-2^31, 2^31 - 1]\<close>.  Each multiply-add step is normalised with 32-bit
  wrap-around: the step keeps the low 31 bits when bit 31 of the raw sum is clear and
  sign-extends when it is set, which is the signed reading of the low 32 bits; hence the
  hash of \<open>s\<close> followed by \<open>c\<close> is the 32-bit signed wrap of
  \<open>compute_hash s * 31 + c\<close>.  The hash of the empty string is 0 and the hash of
  \<open>"a"\<close> is 97.
\<close>

theorem compute_hash_int32:
  "- (2 ^ 31) \<le> compute_hash s \<and> compute_hash s \<le> 2 ^ 31 - 1
   \<and> hash_step h c = (if bit (h * 31 + int c) 31
                       then take_bit 31 (h * 31 + int c) - 2 ^ 31
                       else take_bit 31 (h * 31 + int c))
   \<and> hash_step h c = sint (word_of_int (h * 31 + int c) :: 32 word)
   \<and> compute_hash (s @ [c]) = signed_take_bit 31 (compute_hash s * 31 + int c)
   \<and> compute_hash [] = 0
   \<and> compute_hash (ustr ''a'') = 97"
proof -
  have range: "- (2 ^ 31) \<le> compute_hash s \<and> compute_hash s \<le> 2 ^ 31 - 1"
    using compute_hash_loop_range [of 0 s] by (simp add: compute_hash_def)
  have step: "hash_step h c = (if bit (h * 31 + int c) 31
                       then take_bit 31 (h * 31 + int c) - 2 ^ 31
                       else take_bit 31 (h * 31 + int c))"
    using take_bit_Suc_from_most [of 31 "h * 31 + int c"]
    by (simp add: hash_step_signed signed_take_bit_eq_take_bit_minus)
  have word: "hash_step h c = sint (word_of_int (h * 31 + int c) :: 32 word)"
  proof -
    have "sint (word_of_int (h * 31 + int c) :: 32 word)
        = signed_take_bit (LENGTH(32) - 1) (h * 31 + int c)"
      by (rule sint_sbintrunc')
    then show ?thesis
      by (simp only: hash_step_signed) simp
  qed
  have snoc: "compute_hash (s @ [c]) = signed_take_bit 31 (compute_hash s * 31 + int c)"
    by (simp add: compute_hash_def compute_hash_loop_snoc hash_step_signed)
  have empty: "compute_hash [] = 0"
    by (simp add: compute_hash_def)
  have a: "compute_hash (ustr ''a'') = 97"
    by (simp add: compute_hash_def ustr_def hash_step_def negative_def boundary_def)
  from range step word snoc empty a show ?thesis
    by blast
qed

section \<open>Decoding what the encoder produces: base64\<close>

lemma table_b64_char: "v < 64 \<Longrightarrow> table_a2b_base64 (spec_b64_char v) = Some v"
  unfolding table_a2b_base64_def spec_b64_char_def by (simp split: if_splits) linarith?

lemma b64_char_not_pad: "spec_b64_char v \<noteq> 61"
  by (auto simp add: spec_b64_char_def)

lemma b64_char_ascii: "v < 64 \<Longrightarrow> spec_b64_char v < 128"
  by (auto simp add: spec_b64_char_def)

lemma a2b_data_0:
  "v < 64 \<Longrightarrow> a2b_base64 0 l p (spec_b64_char v # rest) = a2b_base64 1 v 0 rest"
  by (simp add: table_b64_char b64_char_not_pad)

lemma a2b_data_1:
  "v < 64 \<Longrightarrow> a2b_base64 1 l p (spec_b64_char v # rest)
     = emit (l * 4 + v div 16) (a2b_base64 2 (v mod 16) 0 rest)"
  by (simp add: table_b64_char b64_char_not_pad)

lemma a2b_data_2:
  "v < 64 \<Longrightarrow> a2b_base64 2 l p (spec_b64_char v # rest)
     = emit (l * 16 + v div 4) (a2b_base64 3 (v mod 4) 0 rest)"
  by (simp add: table_b64_char b64_char_not_pad)

lemma a2b_data_3:
  "v < 64 \<Longrightarrow> a2b_base64 3 l p (spec_b64_char v # rest)
     = emit (l * 64 + v) (a2b_base64 0 0 0 rest)"
  by (simp add: table_b64_char b64_char_not_pad)

lemma a2b_pad_2: "a2b_base64 2 l 0 (61 # 61 # rest) = Inr []"
  by simp

lemma a2b_pad_3: "a2b_base64 3 l 0 (61 # rest) = Inr []"
  by simp

lemma octet_1: "b < 256 \<Longrightarrow> a div 4 * 4 + ((a mod 4) * 16 + b div 16) div 16 = a" for a b :: nat
  by simp

lemma octet_2:
  fixes a b c :: nat
  assumes "b < 256" and "c < 256"
  shows "((a mod 4) * 16 + b div 16) mod 16 * 16 + ((b mod 16) * 4 + c div 64) div 4 = b"
proof -
  from assms have "b div 16 < 16" and "c div 64 < 4" by simp_all
  then have "((a mod 4) * 16 + b div 16) mod 16 = b div 16"
    and "((b mod 16) * 4 + c div 64) div 4 = b mod 16" by simp_all
  then show ?thesis by simp
qed

lemma octet_3:
  fixes b c :: nat
  assumes "c < 256"
  shows "((b mod 16) * 4 + c div 64) mod 4 * 64 + c mod 64 = c"
proof -
  from assms have "c div 64 < 4" by simp
  then have "((b mod 16) * 4 + c div 64) mod 4 = c div 64" by simp
  then show ?thesis by simp
qed

lemma octet_1_last: "a div 4 * 4 + ((a mod 4) * 16) div 16 = a" for a :: nat
  by simp

lemma octet_2_last:
  fixes a b :: nat
  assumes "b < 256"
  shows "((a mod 4) * 16 + b div 16) mod 16 * 16 + ((b mod 16) * 4) div 4 = b"
proof -
  from assms have "b div 16 < 16" by simp
  then have "((a mod 4) * 16 + b div 16) mod 16 = b div 16" by simp
  then show ?thesis by simp
qed

lemma sextets:
  fixes a b c :: nat
  assumes "a < 256" "b < 256" "c < 256"
  shows "a div 4 < 64" "(a mod 4) * 16 + b div 16 < 64" "(b mod 16) * 4 + c div 64 < 64"
    "c mod 64 < 64" "(a mod 4) * 16 < 64" "(b mod 16) * 4 < 64"
proof -
  from assms have "b div 16 < 16" and "c div 64 < 4" by simp_all
  moreover have "a mod 4 < 4" and "b mod 16 < 16" by simp_all
  ultimately show "(a mod 4) * 16 + b div 16 < 64" "(b mod 16) * 4 + c div 64 < 64"
    "(a mod 4) * 16 < 64" "(b mod 16) * 4 < 64"
    by linarith+
  from assms show "a div 4 < 64" "c mod 64 < 64" by simp_all
qed

lemma emit_Inr: "emit b (Inr bs) = Inr (b # bs)"
  by (simp add: emit_def)

lemma a2b_encode:
  "list_all (\<lambda>b. b < 256) bs \<Longrightarrow> a2b_base64 0 0 0 (spec_b64encode bs) = Inr bs"
proof (induction bs rule: spec_b64encode.induct)
  case 1
  show ?case by simp
next
  case (2 a)
  from "2.prems" have a: "a < 256" by simp
  show ?case
    by (simp only: spec_b64encode.simps a2b_data_0 a2b_data_1 sextets [OF a a a] a2b_pad_2
        emit_Inr octet_1_last)
next
  case (3 a b)
  from "3.prems" have a: "a < 256" and b: "b < 256" by simp_all
  show ?case
    by (simp only: spec_b64encode.simps a2b_data_0 a2b_data_1 a2b_data_2 sextets [OF a b b]
        a2b_pad_3 emit_Inr octet_1 [OF b] octet_2_last [OF b])
next
  case (4 a b c r)
  from "4.prems" have a: "a < 256" and b: "b < 256" and c: "c < 256"
    and "list_all (\<lambda>b. b < 256) r" by simp_all
  with "4.IH" have r: "a2b_base64 0 0 0 (spec_b64encode r) = Inr r" by blast
  show ?case
    by (simp only: spec_b64encode.simps append.simps a2b_data_0 a2b_data_1 a2b_data_2
        a2b_data_3 sextets [OF a b c] r emit_Inr octet_1 [OF b] octet_2 [OF b c] octet_3 [OF c])
qed

lemma b64encode_ascii:
  "list_all (\<lambda>b. b < 256) bs \<Longrightarrow> \<not> list_ex (\<lambda>c. 128 \<le> c) (spec_b64encode bs)"
proof (induction bs rule: spec_b64encode.induct)
  case 1
  then show ?case by simp
next
  case (2 a)
  then have a: "a < 256" by simp
  show ?case
    using sextets [OF a a a] by (simp add: b64_char_ascii not_le)
next
  case (3 a b)
  then have a: "a < 256" and b: "b < 256" by simp_all
  show ?case
    using sextets [OF a b b] by (simp add: b64_char_ascii not_le)
next
  case (4 a b c r)
  from "4.prems" have a: "a < 256" and b: "b < 256" and c: "c < 256"
    and "list_all (\<lambda>b. b < 256) r" by simp_all
  with "4.IH" have r: "\<not> list_ex (\<lambda>c. 128 \<le> c) (spec_b64encode r)" by blast
  show ?case
    using sextets [OF a b c] r by (simp add: b64_char_ascii not_le)
qed

lemma b64decode_encode:
  "list_all (\<lambda>b. b < 256) bs \<Longrightarrow> b64decode (spec_b64encode bs) = Inr bs"
  by (simp add: b64decode_def b64encode_ascii a2b_encode)

section \<open>Decoding what the encoder produces: UTF-8\<close>

lemma sextet_sum_3: "c div 4096 * 4096 + (c div 64) mod 64 * 64 + c mod 64 = c" for c :: nat
proof -
  have "c div 4096 = c div 64 div 64" by (simp add: div_mult2_eq [symmetric])
  moreover have "c div 64 div 64 * 64 + (c div 64) mod 64 = c div 64" by simp
  moreover have "c div 64 * 64 + c mod 64 = c" by simp
  ultimately show ?thesis by linarith
qed

lemma sextet_sum_4:
  "c div 262144 * 262144 + (c div 4096) mod 64 * 4096 + (c div 64) mod 64 * 64 + c mod 64 = c"
  for c :: nat
proof -
  have "c div 262144 = c div 4096 div 64" by (simp add: div_mult2_eq [symmetric])
  moreover have "c div 4096 div 64 * 64 + (c div 4096) mod 64 = c div 4096" by simp
  ultimately have "c div 262144 * 262144 + (c div 4096) mod 64 * 4096 = c div 4096 * 4096"
    by linarith
  with sextet_sum_3 [of c] show ?thesis by linarith
qed

lemma decode_utf8_1: "c < 128 \<Longrightarrow> decode_utf8 (c # rest) = put c (decode_utf8 rest)"
  by simp

lemma decode_utf8_2:
  assumes "128 \<le> c" and "c < 2048"
  shows "decode_utf8 ((192 + c div 64) # (128 + c mod 64) # rest) = put c (decode_utf8 rest)"
proof -
  from assms have "2 \<le> c div 64" and "c div 64 < 32" by simp_all
  then have lead: "\<not> 192 + c div 64 < 128" "194 \<le> 192 + c div 64" "192 + c div 64 < 224"
    by simp_all
  have cont: "is_cont (128 + c mod 64)"
    by (simp add: is_cont_def)
  have cp: "(192 + c div 64 - 192) * 64 + (128 + c mod 64 - 128) = c"
    by simp
  show ?thesis
    by (simp only: decode_utf8.simps lead cont cp list.case if_True if_False simp_thms)
qed

lemma decode_utf8_3:
  assumes "2048 \<le> c" and "c < 65536" and "\<not> (55296 \<le> c \<and> c < 57344)"
  shows "decode_utf8 ((224 + c div 4096) # (128 + (c div 64) mod 64) # (128 + c mod 64) # rest)
       = put c (decode_utf8 rest)"
proof -
  from assms have "c div 4096 < 16" by simp
  then have lead: "\<not> 224 + c div 4096 < 128"
    "\<not> (194 \<le> 224 + c div 4096 \<and> 224 + c div 4096 < 224)"
    "224 \<le> 224 + c div 4096" "224 + c div 4096 < 240"
    by simp_all
  have cont: "is_cont (128 + (c div 64) mod 64)" "is_cont (128 + c mod 64)"
    by (simp_all add: is_cont_def)
  have cp: "(224 + c div 4096 - 224) * 4096 + (128 + (c div 64) mod 64 - 128) * 64
       + (128 + c mod 64 - 128) = c"
    using sextet_sum_3 [of c] by simp
  show ?thesis
    using assms
    by (simp only: decode_utf8.simps lead cont cp list.case if_True if_False simp_thms Let_def)
qed

lemma decode_utf8_4:
  assumes "65536 \<le> c" and "c < 1114112"
  shows "decode_utf8 ((240 + c div 262144) # (128 + (c div 4096) mod 64)
           # (128 + (c div 64) mod 64) # (128 + c mod 64) # rest)
       = put c (decode_utf8 rest)"
proof -
  from assms have "c div 262144 < 5" by simp
  then have lead: "\<not> 240 + c div 262144 < 128"
    "\<not> (194 \<le> 240 + c div 262144 \<and> 240 + c div 262144 < 224)"
    "\<not> (224 \<le> 240 + c div 262144 \<and> 240 + c div 262144 < 240)"
    "240 \<le> 240 + c div 262144" "240 + c div 262144 < 245"
    by simp_all
  have cont: "is_cont (128 + (c div 4096) mod 64)" "is_cont (128 + (c div 64) mod 64)"
    "is_cont (128 + c mod 64)"
    by (simp_all add: is_cont_def)
  have cp: "(240 + c div 262144 - 240) * 262144 + (128 + (c div 4096) mod 64 - 128) * 4096
       + (128 + (c div 64) mod 64 - 128) * 64 + (128 + c mod 64 - 128) = c"
    using sextet_sum_4 [of c] by simp
  show ?thesis
    using assms
    by (simp only: decode_utf8.simps lead cont cp list.case if_True if_False simp_thms Let_def)
qed

lemma decode_utf8_char:
  assumes "spec_encode_utf8_char c = Some e"
  shows "decode_utf8 (e @ rest) = put c (decode_utf8 rest)"
proof -
  consider "c < 128" | "128 \<le> c" "c < 2048"
    | "2048 \<le> c" "c < 65536" "\<not> (55296 \<le> c \<and> c < 57344)"
    | "65536 \<le> c" "c < 1114112"
    | "55296 \<le> c \<and> c < 57344" | "1114112 \<le> c"
    by linarith
  then show ?thesis
  proof cases
    case 1
    with assms have "e = [c]" by (simp add: spec_encode_utf8_char_def)
    with decode_utf8_1 [OF 1, of rest] show ?thesis by simp
  next
    case 2
    with assms have "e = [192 + c div 64, 128 + c mod 64]"
      by (simp add: spec_encode_utf8_char_def)
    with decode_utf8_2 [OF 2, of rest] show ?thesis by simp
  next
    case 3
    with assms have "e = [224 + c div 4096, 128 + (c div 64) mod 64, 128 + c mod 64]"
      by (simp add: spec_encode_utf8_char_def)
    with decode_utf8_3 [OF 3, of rest] show ?thesis by simp
  next
    case 4
    with assms have "e = [240 + c div 262144, 128 + (c div 4096) mod 64,
        128 + (c div 64) mod 64, 128 + c mod 64]"
      by (simp add: spec_encode_utf8_char_def)
    with decode_utf8_4 [OF 4, of rest] show ?thesis by simp
  next
    case 5
    with assms show ?thesis by (simp add: spec_encode_utf8_char_def)
  next
    case 6
    with assms show ?thesis by (simp add: spec_encode_utf8_char_def)
  qed
qed

lemma encode_utf8_char_bytes:
  assumes "spec_encode_utf8_char c = Some e"
  shows "list_all (\<lambda>b. b < 256) e"
proof -
  have "c < 2048 \<Longrightarrow> c div 64 < 32" "c < 65536 \<Longrightarrow> c div 4096 < 16"
    "c < 1114112 \<Longrightarrow> c div 262144 < 5"
    by simp_all
  moreover have "c mod 64 < 64" "(c div 64) mod 64 < 64" "(c div 4096) mod 64 < 64"
    by simp_all
  ultimately show ?thesis
    using assms unfolding spec_encode_utf8_char_def
    by (auto split: if_splits)
qed

lemma decode_encode_utf8:
  "spec_encode_utf8 cs = Some bs \<Longrightarrow> decode_utf8 bs = Inr cs \<and> list_all (\<lambda>b. b < 256) bs"
proof (induction cs arbitrary: bs)
  case Nil
  then show ?case by simp
next
  case (Cons c cs)
  from Cons.prems obtain e r where e: "spec_encode_utf8_char c = Some e"
    and r: "spec_encode_utf8 cs = Some r" and bs: "bs = e @ r"
    by (auto split: option.splits)
  from Cons.IH [OF r] have "decode_utf8 r = Inr cs" and "list_all (\<lambda>b. b < 256) r"
    by simp_all
  with decode_utf8_char [OF e, of r] encode_utf8_char_bytes [OF e] bs
  show ?case by (simp add: put_def)
qed

section \<open>Properties of the deobfuscation\<close>

lemma key_byte_less: "key_byte h u < 256"
proof -
  let ?m = "compute_hash (h @ u) mod 256"
  have "0 \<le> ?m" and "?m < 256" by simp_all
  moreover from \<open>0 \<le> ?m\<close> have "?m AND 255 \<le> ?m" by (rule AND_upper1)
  ultimately have "?m AND 255 < 256" by linarith
  then have "nat (?m AND 255) < 256" by linarith
  then show ?thesis unfolding key_byte_def hashmod_def .
qed

lemma xor_key_twice: "(c XOR k) XOR k = c" for c k :: nat
  by (simp add: xor.assoc)

lemma xor_low_byte: "k < 256 \<Longrightarrow> (c XOR k) div 256 = c div 256" for c k :: nat
proof -
  assume "k < 256"
  then have "drop_bit 8 k = 0" by (simp add: drop_bit_eq_div)
  moreover have "drop_bit 8 (c XOR k) = drop_bit 8 c XOR drop_bit 8 k" by simp
  ultimately show ?thesis by (simp add: drop_bit_eq_div)
qed

lemma password_final_map: "password_final h u pw = map (\<lambda>c. c XOR key_byte h u) pw"
  by (rule nth_equalityI) (simp_all add: password_final_def)

lemma put_range:
  "put c r = Inr cs \<Longrightarrow> \<exists>cs'. r = Inr cs' \<and> cs = c # cs'"
  by (cases r) (simp_all add: put_def)

lemma decode_utf8_range:
  "decode_utf8 bs = Inr cs \<Longrightarrow> list_all (\<lambda>c. c < 1114112) cs"
proof (induction bs arbitrary: cs rule: decode_utf8.induct)
  case 1
  then show ?case by simp
next
  case (2 b0 bs)
  show ?case
  proof (cases "b0 < 128")
    case True
    with "2.prems" obtain cs' where "decode_utf8 bs = Inr cs'" and "cs = b0 # cs'"
      by (auto dest: put_range)
    with "2.IH"(1) [OF True] True show ?thesis by simp
  next
    case n1: False
    show ?thesis
    proof (cases "194 \<le> b0 \<and> b0 < 224")
      case True
      with n1 "2.prems" obtain b1 r where bs: "bs = b1 # r" and c: "is_cont b1"
        and p: "put ((b0 - 192) * 64 + (b1 - 128)) (decode_utf8 r) = Inr cs"
        by (auto split: list.splits if_splits)
      from p obtain cs' where r: "decode_utf8 r = Inr cs'"
        and cs: "cs = ((b0 - 192) * 64 + (b1 - 128)) # cs'"
        by (auto dest: put_range)
      from True c have "(b0 - 192) * 64 + (b1 - 128) < 1114112"
        unfolding is_cont_def by arith
      with "2.IH"(2) [OF n1 True bs c r] cs show ?thesis by simp
    next
      case n2: False
      show ?thesis
      proof (cases "224 \<le> b0 \<and> b0 < 240")
        case True
        with n1 n2 "2.prems" obtain b1 b2 r where bs: "bs = b1 # b2 # r"
          and p: "(let cp = (b0 - 224) * 4096 + (b1 - 128) * 64 + (b2 - 128)
             in if is_cont b1 \<and> is_cont b2 \<and> 2048 \<le> cp \<and> \<not> (55296 \<le> cp \<and> cp < 57344)
                then put cp (decode_utf8 r) else Inl UnicodeDecodeError) = Inr cs"
          by (auto split: list.splits)
        let ?cp = "(b0 - 224) * 4096 + (b1 - 128) * 64 + (b2 - 128)"
        from p have ok: "is_cont b1 \<and> is_cont b2 \<and> 2048 \<le> ?cp \<and> \<not> (55296 \<le> ?cp \<and> ?cp < 57344)"
          and p': "put ?cp (decode_utf8 r) = Inr cs"
          by (simp_all add: Let_def split: if_splits)
        from p' obtain cs' where r: "decode_utf8 r = Inr cs'" and cs: "cs = ?cp # cs'"
          by (auto dest: put_range)
        from True ok have "?cp < 1114112"
          unfolding is_cont_def by arith
        with "2.IH"(3) [OF n1 n2 True bs refl refl ok r] cs show ?thesis by simp
      next
        case n3: False
        show ?thesis
        proof (cases "240 \<le> b0 \<and> b0 < 245")
          case True
          note p0 = "2.prems" [unfolded decode_utf8.simps if_not_P [OF n1] if_not_P [OF n2]
              if_not_P [OF n3] if_P [OF True]]
          from p0 obtain b1 b2 b3 r where bs: "bs = b1 # b2 # b3 # r"
            and p: "(let cp = (b0 - 240) * 262144 + (b1 - 128) * 4096 + (b2 - 128) * 64 + (b3 - 128)
               in if is_cont b1 \<and> is_cont b2 \<and> is_cont b3 \<and> 65536 \<le> cp \<and> cp < 1114112
                  then put cp (decode_utf8 r) else Inl UnicodeDecodeError) = Inr cs"
            by (auto split: list.splits)
          let ?cp = "(b0 - 240) * 262144 + (b1 - 128) * 4096 + (b2 - 128) * 64 + (b3 - 128)"
          from p have ok: "is_cont b1 \<and> is_cont b2 \<and> is_cont b3 \<and> 65536 \<le> ?cp \<and> ?cp < 1114112"
            and p': "put ?cp (decode_utf8 r) = Inr cs"
            by (simp_all add: Let_def split: if_splits)
          from p' obtain cs' where r: "decode_utf8 r = Inr cs'" and cs: "cs = ?cp # cs'"
            by (auto dest: put_range)
          with "2.IH"(4) [OF n1 n2 n3 True bs refl refl refl ok r] ok show ?thesis by simp
        next
          case False
          from "2.prems" [unfolded decode_utf8.simps if_not_P [OF n1] if_not_P [OF n2]
              if_not_P [OF n3] if_not_P [OF False]]
          show ?thesis by simp
        qed
      qed
    qed
  qed
qed

lemma xor_key_range:
  fixes c k :: nat
  assumes "k < 256" and "c < 1114112"
  shows "c XOR k < 1114112"
proof -
  from assms(2) have "c div 256 < 4352" by simp
  with xor_low_byte [OF assms(1), of c] have "(c XOR k) div 256 < 4352" by simp
  then show ?thesis by arith
qed

text \<open>
  The characters appended by the second loop of \<open>_deobfuscate\<close> are in the range of
  \<open>chr\<close>, so that call cannot raise and the loop has no failing branch.
\<close>

lemma password_final_chr_range:
  assumes "decode_utf8 bs = Inr pw"
  shows "list_all (\<lambda>ci. ci < 1114112) (password_final h u pw)"
proof -
  from assms have "list_all (\<lambda>c. c < 1114112) pw"
    by (rule decode_utf8_range)
  then show ?thesis
    unfolding password_final_map
    by (induction pw) (simp_all add: xor_key_range [OF key_byte_less])
qed

lemma decrypted_loop_takeWhile: "decrypted_loop xs = takeWhile (\<lambda>ci. ci \<noteq> 0) xs"
  by (induction xs) simp_all

lemma decrypted_loop_no_zero: "0 \<notin> set xs \<Longrightarrow> decrypted_loop xs = xs"
  by (induction xs) auto

lemma encodable_iff:
  "(spec_encode_utf8_char c \<noteq> None) = (c < 1114112 \<and> \<not> (55296 \<le> c \<and> c < 57344))"
  by (simp add: spec_encode_utf8_char_def)

lemma encodable_div:
  "(c < 1114112 \<and> \<not> (55296 \<le> c \<and> c < 57344))
     = (c div 256 < 4352 \<and> \<not> (216 \<le> c div 256 \<and> c div 256 < 224))" for c :: nat
  by arith

lemma encodable_xor:
  assumes "k < 256" and "spec_encode_utf8_char c \<noteq> None"
  shows "spec_encode_utf8_char (c XOR k) \<noteq> None"
proof -
  from assms(2) have "c < 1114112 \<and> \<not> (55296 \<le> c \<and> c < 57344)"
    by (rule encodable_iff [THEN iffD1])
  then have "c div 256 < 4352 \<and> \<not> (216 \<le> c div 256 \<and> c div 256 < 224)"
    by (rule encodable_div [THEN iffD1])
  then have "(c XOR k) div 256 < 4352
      \<and> \<not> (216 \<le> (c XOR k) div 256 \<and> (c XOR k) div 256 < 224)"
    by (simp add: xor_low_byte [OF assms(1)])
  then have "c XOR k < 1114112 \<and> \<not> (55296 \<le> c XOR k \<and> c XOR k < 57344)"
    by (rule encodable_div [THEN iffD2])
  then show ?thesis
    by (rule encodable_iff [THEN iffD2])
qed

lemma encode_utf8_total:
  "list_all (\<lambda>c. spec_encode_utf8_char c \<noteq> None) cs \<Longrightarrow> spec_encode_utf8 cs \<noteq> None"
  by (induction cs) auto

lemma obfuscate_total:
  assumes "list_all (\<lambda>c. c < 1114112 \<and> \<not> (55296 \<le> c \<and> c < 57344)) plaintext"
  shows "spec_obfuscate h u plaintext \<noteq> None"
proof -
  from assms have "list_all (\<lambda>c. spec_encode_utf8_char c \<noteq> None) plaintext"
    by (simp only: encodable_iff)
  then have "list_all (\<lambda>c. spec_encode_utf8_char c \<noteq> None)
      (map (\<lambda>c. c XOR key_byte h u) plaintext)"
    by (induction plaintext) (simp_all add: encodable_xor [OF key_byte_less] del: not_None_eq)
  then have "spec_encode_utf8 (map (\<lambda>c. c XOR key_byte h u) plaintext) \<noteq> None"
    by (rule encode_utf8_total)
  then show ?thesis
    by (auto simp add: spec_obfuscate_def)
qed



lemma test_vector_decodes:
  "deobfuscate \<lparr>host = ustr ''mytesthost'', username = ustr ''testuser'',
      password = test_vector_password\<rparr> = Inr (ustr ''testpassword'')"
  by code_simp

lemma test_document_hostdata:
  "hostdata (init_store test_document)
     = [(ustr ''mytesthost'', \<lparr>host = ustr ''mytesthost'', username = ustr ''testuser'',
          password = test_vector_password\<rparr>)]"
  by (simp add: init_store_def populate_data_def get_pwd_entry_list_def test_document_def
      get_host_def ustr_def)

text \<open>
  C1.  For host \<open>mytesthost\<close>, user name \<open>testuser\<close> and the base64 text of the
  test suite, \<open>_deobfuscate\<close> returns exactly the string \<open>testpassword\<close>; and, as
  \<open>test_get_userpwd\<close> asserts, the store read from the test document answers
  \<open>get_userpwd('mytesthost')\<close> with \<open>('testuser', 'testpassword')\<close>.
\<close>

theorem deobfuscate_test_vector:
  "deobfuscate \<lparr>host = ustr ''mytesthost'', username = ustr ''testuser'',
      password = test_vector_password\<rparr> = Inr (ustr ''testpassword'')
   \<and> fst (get_userpwd (init_store test_document) (ustr ''mytesthost''))
       = Inr (ustr ''testuser'', ustr ''testpassword'')"
  by (simp add: test_vector_decodes get_userpwd_def get_pwd_def get_user_def
      test_document_hostdata)

text \<open>
  C2.  Round trip: for every host, user name and plaintext without a NUL character, if
  the obfuscated value is produced by XOR-ing each plaintext character with the key byte
  of host and user name and encoding the result as UTF-8 and base64, then
  \<open>_deobfuscate\<close> of that value returns the plaintext.  Such a value is produced for
  every plaintext of Unicode scalar values (code points up to \<open>U+10FFFF\<close> that are not
  surrogates).
\<close>

theorem obfuscate_roundtrip:
  "(spec_obfuscate h u plaintext = Some ct \<and> 0 \<notin> set plaintext \<longrightarrow>
      deobfuscate \<lparr>host = h, username = u, password = ct\<rparr> = Inr plaintext)
   \<and> (list_all (\<lambda>c. c < 1114112 \<and> \<not> (55296 \<le> c \<and> c < 57344)) plaintext \<longrightarrow>
        spec_obfuscate h u plaintext \<noteq> None)"
proof (intro conjI impI)
  assume "spec_obfuscate h u plaintext = Some ct \<and> 0 \<notin> set plaintext"
  then have ob: "spec_obfuscate h u plaintext = Some ct" and nz: "0 \<notin> set plaintext"
    by simp_all
  let ?x = "map (\<lambda>c. c XOR key_byte h u) plaintext"
  from ob obtain bs where bs: "spec_encode_utf8 ?x = Some bs" and ct: "ct = spec_b64encode bs"
    by (auto simp add: spec_obfuscate_def split: option.splits)
  from decode_encode_utf8 [OF bs] have dec: "decode_utf8 bs = Inr ?x"
    and bytes: "list_all (\<lambda>b. b < 256) bs" by simp_all
  from b64decode_encode [OF bytes] ct have b64: "b64decode ct = Inr bs" by simp
  have "password_final h u ?x = plaintext"
    by (simp add: password_final_map xor_key_twice comp_def)
  with nz have "decrypted_loop (password_final h u ?x) = plaintext"
    by (simp add: decrypted_loop_no_zero)
  with b64 dec show "deobfuscate \<lparr>host = h, username = u, password = ct\<rparr> = Inr plaintext"
    by (simp add: deobfuscate_def)
next
  assume "list_all (\<lambda>c. c < 1114112 \<and> \<not> (55296 \<le> c \<and> c < 57344)) plaintext"
  then show "spec_obfuscate h u plaintext \<noteq> None"
    by (rule obfuscate_total)
qed

theorem obfuscate_roundtrip_witness:
  "spec_obfuscate (ustr ''mytesthost'') (ustr ''testuser'') (ustr ''testpassword'')
     = Some (ustr ''NyYwNzMiMDA0LDEn'')
   \<and> 0 \<notin> set (ustr ''testpassword'')
   \<and> list_all (\<lambda>c. c < 1114112 \<and> \<not> (55296 \<le> c \<and> c < 57344)) (ustr ''testpassword'')
   \<and> deobfuscate \<lparr>host = ustr ''mytesthost'', username = ustr ''testuser'',
        password = ustr ''NyYwNzMiMDA0LDEn''\<rparr> = Inr (ustr ''testpassword'')"
proof -
  have ob: "spec_obfuscate (ustr ''mytesthost'') (ustr ''testuser'') (ustr ''testpassword'')
     = Some (ustr ''NyYwNzMiMDA0LDEn'')"
    by code_simp
  have nz: "0 \<notin> set (ustr ''testpassword'')"
    by (simp add: ustr_def)
  have sc: "list_all (\<lambda>c. c < 1114112 \<and> \<not> (55296 \<le> c \<and> c < 57344))
      (ustr ''testpassword'')"
    by (simp add: ustr_def)
  from obfuscate_roundtrip [of "ustr ''mytesthost''" "ustr ''testuser''" "ustr ''testpassword''"
      "ustr ''NyYwNzMiMDA0LDEn''"] ob nz sc
  show ?thesis
    by blast
qed

text \<open>
  C3.  Termination rule: when the two library calls succeed, the string returned by
  \<open>_deobfuscate\<close> is the prefix of the XOR-decoded buffer \<open>password_final\<close> up to,
  and not including, its first zero; if the buffer holds no zero, the whole buffer is
  returned.  Every returned string is such a prefix (it stops at a zero of the buffer or
  at its end) and has no character with code point zero.
\<close>

theorem decode_termination_rule:
  "(b64decode (password e) = Inr bs \<and> decode_utf8 bs = Inr pw \<longrightarrow>
      password_final (host e) (username e) pw = map (\<lambda>c. c XOR key_byte (host e) (username e)) pw
      \<and> deobfuscate e
          = Inr (takeWhile (\<lambda>ci. ci \<noteq> 0) (password_final (host e) (username e) pw))
      \<and> (0 \<notin> set (password_final (host e) (username e) pw) \<longrightarrow>
           deobfuscate e = Inr (password_final (host e) (username e) pw)))
   \<and> (deobfuscate e = Inr p \<longrightarrow>
        0 \<notin> set p
        \<and> (\<exists>bs pw. b64decode (password e) = Inr bs \<and> decode_utf8 bs = Inr pw
              \<and> p = take (length p) (password_final (host e) (username e) pw)
              \<and> (length p < length pw \<longrightarrow>
                   password_final (host e) (username e) pw ! length p = 0)))"
proof (intro conjI impI)
  assume a: "b64decode (password e) = Inr bs \<and> decode_utf8 bs = Inr pw"
  show "password_final (host e) (username e) pw
      = map (\<lambda>c. c XOR key_byte (host e) (username e)) pw"
    by (rule password_final_map)
  from a show "deobfuscate e
      = Inr (takeWhile (\<lambda>ci. ci \<noteq> 0) (password_final (host e) (username e) pw))"
    by (simp add: deobfuscate_def decrypted_loop_takeWhile)
  assume "0 \<notin> set (password_final (host e) (username e) pw)"
  with a show "deobfuscate e = Inr (password_final (host e) (username e) pw)"
    by (simp add: deobfuscate_def decrypted_loop_no_zero)
next
  assume d: "deobfuscate e = Inr p"
  obtain bs where bs: "b64decode (password e) = Inr bs"
    using d by (cases "b64decode (password e)") (simp_all add: deobfuscate_def)
  obtain pw where pw: "decode_utf8 bs = Inr pw"
    using d bs by (cases "decode_utf8 bs") (simp_all add: deobfuscate_def)
  from d bs pw
  have p: "p = takeWhile (\<lambda>ci. ci \<noteq> 0) (password_final (host e) (username e) pw)"
    by (simp add: deobfuscate_def decrypted_loop_takeWhile)
  let ?buf = "password_final (host e) (username e) pw"
  from p show "0 \<notin> set p"
    by (auto dest: set_takeWhileD)
  have len: "length ?buf = length pw"
    by (simp add: password_final_map)
  have "p = take (length p) ?buf"
    unfolding p by (rule takeWhile_eq_take)
  moreover have "length p < length pw \<longrightarrow> ?buf ! length p = 0"
    unfolding p using nth_length_takeWhile [of "\<lambda>ci. ci \<noteq> 0" ?buf] len by simp
  ultimately show "\<exists>bs pw. b64decode (password e) = Inr bs \<and> decode_utf8 bs = Inr pw
      \<and> p = take (length p) (password_final (host e) (username e) pw)
      \<and> (length p < length pw \<longrightarrow> password_final (host e) (username e) pw ! length p = 0)"
    using bs pw by blast
qed

theorem decode_termination_rule_witness:
  "b64decode (password \<lparr>host = [], username = [], password = ustr ''YQBi''\<rparr>) = Inr [97, 0, 98]
   \<and> decode_utf8 [97, 0, 98] = Inr [97, 0, 98]
   \<and> password_final [] [] [97, 0, 98] = [97, 0, 98]
   \<and> deobfuscate \<lparr>host = [], username = [], password = ustr ''YQBi''\<rparr> = Inr [97]
   \<and> (0::nat) \<notin> set [97]
   \<and> length [97::nat] < length [97, 0, 98::nat]
   \<and> password_final [] [] [97, 0, 98] ! length [97::nat] = 0
   \<and> b64decode (password \<lparr>host = [], username = [], password = ustr ''YWI=''\<rparr>) = Inr [97, 98]
   \<and> decode_utf8 [97, 98] = Inr [97, 98]
   \<and> 0 \<notin> set (password_final [] [] [97, 98])
   \<and> deobfuscate \<lparr>host = [], username = [], password = ustr ''YWI=''\<rparr>
       = Inr (password_final [] [] [97, 98])"
proof -
  let ?e = "\<lparr>host = [], username = [], password = ustr ''YQBi''\<rparr>"
  let ?f = "\<lparr>host = [], username = [], password = ustr ''YWI=''\<rparr>"
  have b: "b64decode (password ?e) = Inr [97, 0, 98]"
    by code_simp
  have u: "decode_utf8 [97, 0, 98] = Inr [97, 0, 98]"
    by code_simp
  have f: "password_final [] [] [97, 0, 98] = [97, 0, 98]"
    by code_simp
  have b': "b64decode (password ?f) = Inr [97, 98]"
    by code_simp
  have u': "decode_utf8 [97, 98] = Inr [97, 98]"
    by code_simp
  have f': "password_final [] [] [97, 98] = [97, 98]"
    by code_simp
  from decode_termination_rule [of ?e "[97, 0, 98]" "[97, 0, 98]" "[97]"] b u f
  have 1: "deobfuscate ?e = Inr [97]"
    by simp
  from decode_termination_rule [of ?f "[97, 98]" "[97, 98]" "[97, 98]"] b' u' f'
  have 2: "deobfuscate ?f = Inr (password_final [] [] [97, 98])"
    by simp
  from b u f 1 b' u' f' 2 show ?thesis
    by simp
qed

text \<open>
  C10.  \<open>_deobfuscate\<close> depends on host and user name only through their
  concatenation: two entries with the same concatenation and the same password field
  have the same key byte and decode to the same result.
\<close>

theorem decode_depends_on_concatenation:
  "host e @ username e = host e' @ username e' \<Longrightarrow> password e = password e' \<Longrightarrow>
   key_byte (host e) (username e) = key_byte (host e') (username e')
   \<and> deobfuscate e = deobfuscate e'"
proof -
  assume c: "host e @ username e = host e' @ username e'" and p: "password e = password e'"
  from c have k: "key_byte (host e) (username e) = key_byte (host e') (username e')"
    by (simp add: key_byte_def)
  then have "password_final (host e) (username e) pw = password_final (host e') (username e') pw"
    for pw
    by (simp add: password_final_map)
  with p have "deobfuscate e = deobfuscate e'"
    by (simp add: deobfuscate_def cong: sum.case_cong)
  with k show ?thesis
    by simp
qed

theorem decode_depends_on_concatenation_witness:
  "host \<lparr>host = ustr ''ab'', username = ustr ''c'', password = ustr ''YQBi''\<rparr>
     @ username \<lparr>host = ustr ''ab'', username = ustr ''c'', password = ustr ''YQBi''\<rparr>
   = host \<lparr>host = ustr ''a'', username = ustr ''bc'', password = ustr ''YQBi''\<rparr>
     @ username \<lparr>host = ustr ''a'', username = ustr ''bc'', password = ustr ''YQBi''\<rparr>
   \<and> deobfuscate \<lparr>host = ustr ''ab'', username = ustr ''c'', password = ustr ''YQBi''\<rparr>
     = deobfuscate \<lparr>host = ustr ''a'', username = ustr ''bc'', password = ustr ''YQBi''\<rparr>
   \<and> deobfuscate \<lparr>host = ustr ''a'', username = ustr ''bc'', password = ustr ''YQBi''\<rparr>
     = Inr [3, 98]"
proof -
  let ?e = "\<lparr>host = ustr ''ab'', username = ustr ''c'', password = ustr ''YQBi''\<rparr>"
  let ?e' = "\<lparr>host = ustr ''a'', username = ustr ''bc'', password = ustr ''YQBi''\<rparr>"
  have c: "host ?e @ username ?e = host ?e' @ username ?e'"
    by (simp add: ustr_def)
  have p: "password ?e = password ?e'"
    by simp
  have v: "deobfuscate ?e' = Inr [3, 98]"
    by code_simp
  from decode_depends_on_concatenation [OF c p] c v show ?thesis
    by simp
qed

section \<open>Properties of the store\<close>

lemma find_snoc:
  "List.find P (xs @ [x]) = (case List.find P xs of None \<Rightarrow> (if P x then Some x else None)
                             | Some y \<Rightarrow> Some y)"
  by (induction xs) simp_all

lemma find_skip: "\<not> P x \<Longrightarrow> List.find P (xs @ x # ys) = List.find P (xs @ ys)"
  by (induction xs) simp_all

lemma populate_loop_map_of:
  "map_of (populate_loop d es) h
     = (case List.find (\<lambda>e. host e = h) (rev es) of None \<Rightarrow> map_of d h | Some e \<Rightarrow> Some e)"
proof (induction es arbitrary: d)
  case Nil
  show ?case by simp
next
  case (Cons e es)
  show ?case
    by (simp add: Cons.IH find_snoc get_host_def update_conv' split: option.splits)
qed

lemma populate_loop_distinct:
  "distinct (map fst d) \<Longrightarrow> distinct (map fst (populate_loop d es))"
  by (induction es arbitrary: d) (simp_all add: distinct_update)

lemma populate_loop_keys:
  "fst ` set (populate_loop d es) = fst ` set d \<union> host ` set es"
  by (induction es arbitrary: d) (auto simp add: dom_update get_host_def)

lemma get_userpwd_map_of:
  "fst (get_userpwd s h)
     = (case map_of (hostdata s) h of None \<Rightarrow> Inl HostNotFoundException
        | Some e \<Rightarrow> (case deobfuscate e of Inl err \<Rightarrow> Inl err
                      | Inr pwd \<Rightarrow> Inr (username e, pwd)))"
  by (simp add: get_userpwd_def get_pwd_def get_user_def split: option.splits sum.splits)

lemma populate_loop_other_host:
  assumes "h \<noteq> host e"
  shows "map_of (populate_loop [] (es1 @ e # es2)) h = map_of (populate_loop [] (es1 @ es2)) h"
proof -
  from assms have "\<not> (\<lambda>x. host x = h) e" by simp
  then have "List.find (\<lambda>x. host x = h) (rev es2 @ e # rev es1)
      = List.find (\<lambda>x. host x = h) (rev es2 @ rev es1)"
    by (rule find_skip)
  then show ?thesis
    by (simp add: populate_loop_map_of)
qed

text \<open>
  C5.  For every sequence of entries, the dictionary built from it holds each host once,
  and looking a host up finds the last entry of the sequence with that host (none if
  there is no such entry); \<open>get_userpwd\<close> then decodes with the fields of that entry.
  In particular, of two entries with the same host the second one is kept.
\<close>

theorem last_entry_wins:
  "distinct (map fst (populate_loop [] es))
   \<and> map_of (populate_loop [] es) h = List.find (\<lambda>e. host e = h) (rev es)
   \<and> fst (get_userpwd \<lparr>root = r, hostdata = populate_loop [] es\<rparr> h)
       = (case List.find (\<lambda>e. host e = h) (rev es) of
            None \<Rightarrow> Inl HostNotFoundException
          | Some e \<Rightarrow> (case deobfuscate e of Inl err \<Rightarrow> Inl err
                        | Inr pwd \<Rightarrow> Inr (username e, pwd)))
   \<and> hostdata (init_store r) = populate_loop [] (get_pwd_entry_list r)
   \<and> map_of (populate_loop [] [\<lparr>host = h, username = u1, password = p1\<rparr>,
                                 \<lparr>host = h, username = u2, password = p2\<rparr>]) h
       = Some \<lparr>host = h, username = u2, password = p2\<rparr>"
proof -
  have m: "map_of (populate_loop [] es) h = List.find (\<lambda>e. host e = h) (rev es)" for es
    by (simp add: populate_loop_map_of split: option.splits)
  have "distinct (map fst (populate_loop [] es))"
    by (rule populate_loop_distinct) simp
  moreover have "fst (get_userpwd \<lparr>root = r, hostdata = populate_loop [] es\<rparr> h)
       = (case List.find (\<lambda>e. host e = h) (rev es) of
            None \<Rightarrow> Inl HostNotFoundException
          | Some e \<Rightarrow> (case deobfuscate e of Inl err \<Rightarrow> Inl err
                        | Inr pwd \<Rightarrow> Inr (username e, pwd)))"
    by (simp only: get_userpwd_map_of vicredstore.simps m)
  moreover have "hostdata (init_store r) = populate_loop [] (get_pwd_entry_list r)"
    by (simp add: init_store_def populate_data_def)
  moreover have "map_of (populate_loop [] [\<lparr>host = h, username = u1, password = p1\<rparr>,
                                 \<lparr>host = h, username = u2, password = p2\<rparr>]) h
       = Some \<lparr>host = h, username = u2, password = p2\<rparr>"
    by (simp only: m) simp
  ultimately show ?thesis
    using m [of es] by blast
qed



text \<open>
  C8.  For every store, \<open>list_entries\<close> yields the hosts of the dictionary, all of
  them and nothing else, in lexicographically sorted order.  For a store built from a
  sequence of entries the result is the sorted list of the set of their hosts, so it does
  not depend on the order of insertion; over the hosts \<open>zeta\<close>, \<open>alpha\<close>, \<open>mid\<close>
  it is \<open>alpha\<close>, \<open>mid\<close>, \<open>zeta\<close>.
\<close>

theorem list_entries_sorted:
  "sorted (list_entries s)
   \<and> set (list_entries s) = fst ` set (hostdata s)
   \<and> length (list_entries s) = length (hostdata s)
   \<and> list_entries \<lparr>root = r, hostdata = populate_loop [] es\<rparr>
       = sorted_list_of_set (host ` set es)
   \<and> list_entries \<lparr>root = r, hostdata = populate_loop []
         [\<lparr>host = ustr ''zeta'', username = u1, password = p1\<rparr>,
          \<lparr>host = ustr ''alpha'', username = u2, password = p2\<rparr>,
          \<lparr>host = ustr ''mid'', username = u3, password = p3\<rparr>]\<rparr>
       = [ustr ''alpha'', ustr ''mid'', ustr ''zeta'']"
proof -
  let ?ks = "map fst (populate_loop [] es)"
  have "distinct ?ks"
    by (rule populate_loop_distinct) simp
  then have a: "sort ?ks = sort (remdups ?ks)"
    by (simp add: distinct_remdups_id)
  have b: "sort (remdups ?ks) = sorted_list_of_set (set ?ks)"
    by (rule sorted_list_of_set_sort_remdups [symmetric])
  have c: "set ?ks = host ` set es"
    using populate_loop_keys [of "[]" es] by simp
  have built: "sort ?ks = sorted_list_of_set (host ` set es)"
    by (simp only: a b c)
  have example: "list_entries \<lparr>root = r, hostdata = populate_loop []
         [\<lparr>host = ustr ''zeta'', username = u1, password = p1\<rparr>,
          \<lparr>host = ustr ''alpha'', username = u2, password = p2\<rparr>,
          \<lparr>host = ustr ''mid'', username = u3, password = p3\<rparr>]\<rparr>
       = [ustr ''alpha'', ustr ''mid'', ustr ''zeta'']"
    by (simp add: list_entries_def get_host_def ustr_def)
  from built example show ?thesis
    by (simp add: list_entries_def)
qed




text \<open>
  C7, as amended.  For every entry whose password field is rejected by
  \<open>base64.b64decode\<close> (a non-ASCII character, or data characters that end inside a
  quantum; characters outside the alphabet are skipped, not rejected) or whose decoded
  bytes are not valid UTF-8, \<open>_deobfuscate\<close> fails with the exception of the library
  call.  Building the store does not decode, so the failure appears only when that host
  is looked up, and a lookup of any other host returns what it returns in the store
  built without the entry.
\<close>

theorem decoding_failure_isolated:
  "b64decode (password e) = Inl err
     \<or> (\<exists>bs. b64decode (password e) = Inr bs \<and> decode_utf8 bs = Inl err) \<Longrightarrow>
   deobfuscate e = Inl err
   \<and> fst (get_userpwd \<lparr>root = r, hostdata = populate_loop [] (es1 @ [e])\<rparr> (host e)) = Inl err
   \<and> (h \<noteq> host e \<longrightarrow>
        fst (get_userpwd \<lparr>root = r, hostdata = populate_loop [] (es1 @ e # es2)\<rparr> h)
          = fst (get_userpwd \<lparr>root = r, hostdata = populate_loop [] (es1 @ es2)\<rparr> h))"
proof -
  assume "b64decode (password e) = Inl err
     \<or> (\<exists>bs. b64decode (password e) = Inr bs \<and> decode_utf8 bs = Inl err)"
  then have d: "deobfuscate e = Inl err"
    by (auto simp add: deobfuscate_def)
  have "map_of (populate_loop [] (es1 @ [e])) (host e) = Some e"
    by (simp add: populate_loop_map_of)
  with d have l: "fst (get_userpwd \<lparr>root = r, hostdata = populate_loop [] (es1 @ [e])\<rparr> (host e))
      = Inl err"
    by (simp add: get_userpwd_map_of)
  have "h \<noteq> host e \<longrightarrow>
        fst (get_userpwd \<lparr>root = r, hostdata = populate_loop [] (es1 @ e # es2)\<rparr> h)
          = fst (get_userpwd \<lparr>root = r, hostdata = populate_loop [] (es1 @ es2)\<rparr> h)"
    by (simp add: get_userpwd_map_of populate_loop_other_host)
  with d l show ?thesis
    by blast
qed

theorem decoding_failure_isolated_witness:
  "b64decode (password \<lparr>host = ustr ''bad'', username = ustr ''u'', password = ustr ''A''\<rparr>)
     = Inl BinasciiError
   \<and> deobfuscate \<lparr>host = ustr ''bad'', username = ustr ''u'', password = ustr ''A''\<rparr>
     = Inl BinasciiError
   \<and> ustr ''h'' \<noteq> host \<lparr>host = ustr ''bad'', username = ustr ''u'', password = ustr ''A''\<rparr>
   \<and> fst (get_userpwd \<lparr>root = Element [] None [], hostdata = populate_loop []
          ([\<lparr>host = ustr ''h'', username = ustr ''u'', password = ustr ''cA==''\<rparr>]
           @ \<lparr>host = ustr ''bad'', username = ustr ''u'', password = ustr ''A''\<rparr> # [])\<rparr>
        (ustr ''h''))
     = fst (get_userpwd \<lparr>root = Element [] None [], hostdata = populate_loop []
          ([\<lparr>host = ustr ''h'', username = ustr ''u'', password = ustr ''cA==''\<rparr>] @ [])\<rparr>
        (ustr ''h''))
   \<and> fst (get_userpwd \<lparr>root = Element [] None [], hostdata = populate_loop []
          ([\<lparr>host = ustr ''h'', username = ustr ''u'', password = ustr ''cA==''\<rparr>] @ [])\<rparr>
        (ustr ''h''))
     = Inr (ustr ''u'', [125])"
proof -
  let ?bad = "\<lparr>host = ustr ''bad'', username = ustr ''u'', password = ustr ''A''\<rparr>"
  let ?good = "\<lparr>host = ustr ''h'', username = ustr ''u'', password = ustr ''cA==''\<rparr>"
  have b: "b64decode (password ?bad) = Inl BinasciiError"
    by code_simp
  have n: "ustr ''h'' \<noteq> host ?bad"
    by (simp add: ustr_def)
  have g: "fst (get_userpwd \<lparr>root = Element [] None [], hostdata = populate_loop []
          ([?good] @ [])\<rparr> (ustr ''h'')) = Inr (ustr ''u'', [125])"
    by code_simp
  from b have "b64decode (password ?bad) = Inl BinasciiError
     \<or> (\<exists>bs. b64decode (password ?bad) = Inr bs \<and> decode_utf8 bs = Inl BinasciiError)"
    by (rule disjI1)
  from decoding_failure_isolated [OF this, of "Element [] None []" "[?good]" "ustr ''h''" "[]"]
    b n g
  show ?thesis
    by simp
qed

text \<open>
  C7 as stated fails: the password field \<open>!\<close> is not valid base64, and decoding it
  does not fail but returns the empty string.
\<close>

theorem lenient_base64_counterexample:
  "\<not> spec_valid_base64 (ustr ''!'')
   \<and> deobfuscate \<lparr>host = ustr ''h'', username = ustr ''u'', password = ustr ''!''\<rparr> = Inr []"
  by code_simp

end
